theory Spec2Isabelle
  imports Main
begin

text \<open>
  The package answers whether an e-mail address, a domain or a URL belongs to an academic
  institution. Its run-time module (\<open>src/index.ts\<close>) normalizes the input to the labels
  of its host and walks the suffixes of the host through three tables; its build script
  reads these tables from a directory tree. Both are embedded here as functions, with the
  tables and the directory tree as arguments, and the properties of the written
  description are proved of them or refuted.
\<close>

section \<open>JavaScript strings\<close>

text \<open>
  A JavaScript string is modelled as a \<^typ>\<open>string\<close>: one \<^typ>\<open>char\<close> per code unit,
  for code units below 256 (the Latin-1 range). On that range \<open>String.prototype.trim\<close>
  and the regular expression class \<open>\s\<close> remove and match the same seven characters,
  and \<open>toLowerCase\<close> acts on each character separately.
\<close>

definition is_space :: "char \<Rightarrow> bool" where
  "is_space c =
     (c = CHR 0x09 \<or> c = CHR 0x0A \<or> c = CHR 0x0B \<or> c = CHR 0x0C \<or> c = CHR 0x0D
      \<or> c = CHR 0x20 \<or> c = CHR 0xA0)"

definition trim :: "string \<Rightarrow> string" where
  "trim s = rev (dropWhile is_space (rev (dropWhile is_space s)))"

definition lower_char :: "char \<Rightarrow> char" where
  "lower_char c =
     (let n = (of_char c :: nat)
      in if (65 \<le> n \<and> n \<le> 90) \<or> (192 \<le> n \<and> n \<le> 222 \<and> n \<noteq> 215)
         then char_of (n + 32) else c)"

definition toLowerCase :: "string \<Rightarrow> string" where
  "toLowerCase s = map lower_char s"

text \<open>\<open>s.indexOf(c)\<close> for a one-character needle: the first position, or \<open>-1\<close>.\<close>

fun indexOf_from :: "char \<Rightarrow> int \<Rightarrow> string \<Rightarrow> int" where
  "indexOf_from c i [] = - 1"
| "indexOf_from c i (x # xs) = (if x = c then i else indexOf_from c (i + 1) xs)"

definition indexOf :: "char \<Rightarrow> string \<Rightarrow> int" where
  "indexOf c s = indexOf_from c 0 s"

text \<open>\<open>s.substring(start)\<close>: a negative start counts as 0, one beyond the end as the length.\<close>

definition substring :: "int \<Rightarrow> string \<Rightarrow> string" where
  "substring start s = drop (nat start) s"

text \<open>
  \<open>s.split(c)\<close> for a one-character separator: never the empty list, and
  \<open>"".split(c)\<close> is \<open>[""]\<close>.
\<close>

fun split_on :: "char \<Rightarrow> string \<Rightarrow> string list" where
  "split_on c [] = [[]]"
| "split_on c (x # xs) =
     (if x = c then [] # split_on c xs
      else (let r = split_on c xs in (x # hd r) # tl r))"

text \<open>\<open>xs.join(sep)\<close>.\<close>

fun join_with :: "string \<Rightarrow> string list \<Rightarrow> string" where
  "join_with sep [] = []"
| "join_with sep [x] = x"
| "join_with sep (x # y # ys) = x @ sep @ join_with sep (y # ys)"

subsection \<open>Regular expressions anchored at the start\<close>

text \<open>
  The three regular expressions of the run-time module are sequences of single-character
  classes, each taken once, or greedily zero or more times (\<open>*\<close>), or greedily one or more
  times (\<open>+\<close>), anchored at the start by \<open>^\<close> and, for one of them, at the end by \<open>$\<close>.
  \<open>match_re\<close> is the backtracking matcher of ECMAScript on that fragment: a greedy
  quantifier first takes a further character and gives it back only when the rest of the
  pattern fails. It returns what follows the match.
\<close>

datatype piece = One "char \<Rightarrow> bool" | Star "char \<Rightarrow> bool" | Plus "char \<Rightarrow> bool"

fun match_re :: "piece list \<Rightarrow> bool \<Rightarrow> string \<Rightarrow> string option" where
  "match_re [] to_end s = (if to_end \<and> s \<noteq> [] then None else Some s)"
| "match_re (One p # ps) to_end [] = None"
| "match_re (One p # ps) to_end (c # cs) = (if p c then match_re ps to_end cs else None)"
| "match_re (Star p # ps) to_end [] = match_re ps to_end []"
| "match_re (Star p # ps) to_end (c # cs) =
     (if p c
      then (case match_re (Star p # ps) to_end cs of
              Some r \<Rightarrow> Some r
            | None \<Rightarrow> match_re ps to_end (c # cs))
      else match_re ps to_end (c # cs))"
| "match_re (Plus p # ps) to_end [] = None"
| "match_re (Plus p # ps) to_end (c # cs) =
     (if p c then match_re (Star p # ps) to_end cs else None)"

text \<open>\<open>re.test(s)\<close> and \<open>s.replace(re, '')\<close> for such a start-anchored expression.\<close>

definition test_re :: "piece list \<Rightarrow> bool \<Rightarrow> string \<Rightarrow> bool" where
  "test_re re to_end s = (match_re re to_end s \<noteq> None)"

definition replace_re :: "piece list \<Rightarrow> string \<Rightarrow> string" where
  "replace_re re s = (case match_re re False s of Some r \<Rightarrow> r | None \<Rightarrow> s)"

definition lit :: "char \<Rightarrow> char \<Rightarrow> bool" where
  "lit c x = (x = c)"

definition a_to_z :: "char \<Rightarrow> bool" where
  "a_to_z c = (97 \<le> (of_char c :: nat) \<and> (of_char c :: nat) \<le> 122)"

definition not_slash :: "char \<Rightarrow> bool" where
  "not_slash c = (c \<noteq> CHR ''/'')"

definition not_space_at :: "char \<Rightarrow> bool" where
  "not_space_at c = (\<not> is_space c \<and> c \<noteq> CHR ''@'')"

text \<open>\<open>/^[a-z]+:\/\//\<close>\<close>

definition re_scheme :: "piece list" where
  "re_scheme = [Plus a_to_z, One (lit CHR '':''), One (lit CHR ''/''), One (lit CHR ''/'')]"

text \<open>\<open>/^[^/]*@/\<close>\<close>

definition re_userinfo :: "piece list" where
  "re_userinfo = [Star not_slash, One (lit CHR ''@'')]"

text \<open>\<open>/^[^\s@]+@[^\s@]+\.[^\s@]+$/\<close>\<close>

definition re_email :: "piece list" where
  "re_email =
     [Plus not_space_at, One (lit CHR ''@''), Plus not_space_at, One (lit CHR ''.''),
      Plus not_space_at]"

section \<open>The run-time module\<close>

record SwotDataPacked =
  packed_institutions :: "(string \<times> string list) list"
  packed_stoplist :: "string list"
  packed_tlds :: "string list"

record SwotData =
  institutions :: "string \<rightharpoonup> string list"
  stoplist :: "string set"
  tlds :: "string set"

text \<open>
  \<open>loadData\<close>. Its argument is the outcome of the guarded block that reads, decompresses
  and parses \<open>data.json.br\<close>: \<open>None\<close> when one of the three steps raises, and the parsed
  value otherwise. \<open>new Map(Object.entries(o))\<close> sets the entries in order.
\<close>

definition map_of_entries :: "(string \<times> string list) list \<Rightarrow> (string \<rightharpoonup> string list)" where
  "map_of_entries es = fold (\<lambda>(k, v) m. m(k \<mapsto> v)) es Map.empty"

definition loadData :: "SwotDataPacked option \<Rightarrow> SwotData" where
  "loadData artifact =
     (let packed = (case artifact of
                      Some p \<Rightarrow> p
                    | None \<Rightarrow> \<lparr>packed_institutions = [], packed_stoplist = [], packed_tlds = []\<rparr>)
      in \<lparr>institutions = map_of_entries (packed_institutions packed),
          stoplist = set (map toLowerCase (packed_stoplist packed)),
          tlds = set (map toLowerCase (packed_tlds packed))\<rparr>)"

definition domainParts :: "string \<Rightarrow> string list" where
  "domainParts emailOrDomain =
     (let raw = toLowerCase (trim emailOrDomain);
          host =
            hd (split_on CHR '':''
              (hd (split_on CHR ''/''
                (replace_re re_userinfo
                  (replace_re re_scheme
                    (substring (indexOf CHR ''@'' raw + 1) raw))))))
      in if host = [] then [] else rev (split_on CHR ''.'' host))"

text \<open>The accumulator update shared by both loops: \<open>subj ? `${part}.${subj}` : part\<close>.\<close>

definition extend :: "string \<Rightarrow> string \<Rightarrow> string" where
  "extend subj part = (if subj \<noteq> [] then part @ ''.'' @ subj else part)"

fun checkSet_loop :: "string set \<Rightarrow> string \<Rightarrow> string list \<Rightarrow> bool" where
  "checkSet_loop S subj [] = False"
| "checkSet_loop S subj (part # parts) =
     (let subj' = extend subj part
      in if subj' \<in> S then True else checkSet_loop S subj' parts)"

definition checkSet :: "string set \<Rightarrow> string list \<Rightarrow> bool" where
  "checkSet S parts = checkSet_loop S [] parts"

definition isUnderTLD :: "SwotData \<Rightarrow> string \<Rightarrow> bool" where
  "isUnderTLD DATA emailOrDomain = checkSet (tlds DATA) (domainParts emailOrDomain)"

definition isStoplisted :: "SwotData \<Rightarrow> string \<Rightarrow> bool" where
  "isStoplisted DATA emailOrDomain = checkSet (stoplist DATA) (domainParts emailOrDomain)"

fun findSchoolNames_loop :: "(string \<rightharpoonup> string list) \<Rightarrow> string \<Rightarrow> string list \<Rightarrow> string list" where
  "findSchoolNames_loop m subj [] = []"
| "findSchoolNames_loop m subj (part # parts) =
     (let subj' = extend subj part
      in case m subj' of
           Some names \<Rightarrow> if names \<noteq> [] then names else findSchoolNames_loop m subj' parts
         | None \<Rightarrow> findSchoolNames_loop m subj' parts)"

definition findSchoolNames :: "SwotData \<Rightarrow> string \<Rightarrow> string list" where
  "findSchoolNames DATA emailOrDomain =
     findSchoolNames_loop (institutions DATA) [] (domainParts emailOrDomain)"

definition isAcademic :: "SwotData \<Rightarrow> string \<Rightarrow> bool" where
  "isAcademic DATA email =
     (let valid = test_re re_email True email
      in if \<not> valid then False
         else \<not> isStoplisted DATA email
              \<and> (isUnderTLD DATA email \<or> length (findSchoolNames DATA email) > 0))"

section \<open>The build script\<close>

text \<open>
  The file system under \<open>lib/domains\<close> is a tree of directory entries. A regular file
  and an entry that is neither a regular file nor a directory carry what \<open>fs.readFile\<close>
  gives on them (\<open>None\<close>: it rejects); a directory carries its entries, and \<open>BadDir\<close> is
  a directory on which \<open>fs.readdir\<close> rejects. The names of the entries of one directory
  are distinct and contain no path separator, so that a path below \<open>lib/domains\<close> is the
  list of its segments, \<open>path.relative\<close> followed by \<open>split(path.sep)\<close> gives the
  segments back, and \<open>path.basename\<close> is the last segment.
\<close>

datatype node =
    File string "string option"
  | Dir string "node list"
  | BadDir string
  | Other string "string option"

datatype fs_root = Missing | NotDirectory | Directory "node list"

datatype build_error = AccessFailed | StoplistUnreadable | TldsUnreadable | WalkFailed

text \<open>
  \<open>walk\<close>: the paths of the regular files in the order of the generator, each with the
  outcome of reading it. A rejected \<open>readdir\<close> ends the consuming loop of \<open>readSwot\<close>
  with that rejection.
\<close>

fun walk :: "string list \<Rightarrow> node list \<Rightarrow> build_error + (string list \<times> string option) list" where
  "walk dir [] = Inr []"
| "walk dir (Dir name sub # es) =
     (case walk (dir @ [name]) sub of
        Inl err \<Rightarrow> Inl err
      | Inr ys \<Rightarrow> (case walk dir es of Inl err \<Rightarrow> Inl err | Inr zs \<Rightarrow> Inr (ys @ zs)))"
| "walk dir (BadDir name # es) = Inl WalkFailed"
| "walk dir (File name content # es) =
     (case walk dir es of Inl err \<Rightarrow> Inl err | Inr zs \<Rightarrow> Inr ((dir @ [name], content) # zs))"
| "walk dir (Other name content # es) = walk dir es"

text \<open>\<open>fs.readFile\<close> on \<open>path.join(libDomains, name)\<close>.\<close>

fun read_entry :: "string \<Rightarrow> node list \<Rightarrow> string option" where
  "read_entry n [] = None"
| "read_entry n (File m content # es) = (if m = n then content else read_entry n es)"
| "read_entry n (Dir m sub # es) = (if m = n then None else read_entry n es)"
| "read_entry n (BadDir m # es) = (if m = n then None else read_entry n es)"
| "read_entry n (Other m content # es) = (if m = n then content else read_entry n es)"

definition endsWith :: "string \<Rightarrow> string \<Rightarrow> bool" where
  "endsWith suffix s =
     (length suffix \<le> length s \<and> drop (length s - length suffix) s = suffix)"

definition startsWith :: "string \<Rightarrow> string \<Rightarrow> bool" where
  "startsWith prefix s = (take (length prefix) s = prefix)"

text \<open>\<open>name.replace(/\.txt$/i, '')\<close>\<close>

definition strip_txt :: "string \<Rightarrow> string" where
  "strip_txt name =
     (if 4 \<le> length name \<and> toLowerCase (drop (length name - 4) name) = ''.txt''
      then take (length name - 4) name else name)"

text \<open>
  \<open>filePathToDomain\<close>, on the segments of the relative path. \<open>domainToASCII\<close> of
  \<open>node:url\<close> is a parameter. The relative path of \<open>lib/domains\<close> itself is the empty
  string, whose split is one empty segment.
\<close>

definition filePathToDomain :: "(string \<Rightarrow> string) \<Rightarrow> string list \<Rightarrow> string" where
  "filePathToDomain domainToASCII rel =
     (let parts = (if rel = [] then [[]] else rel);
          parts' = butlast parts @ [strip_txt (last parts)];
          domain = join_with ''.'' (rev parts')
      in domainToASCII (toLowerCase domain))"

text \<open>\<open>text.split(/\r?\n/)\<close>\<close>

fun split_lines :: "string \<Rightarrow> string list" where
  "split_lines [] = [[]]"
| "split_lines [x] = (if x = CHR 0x0A then [[], []] else [[x]])"
| "split_lines (x # y # ys) =
     (if x = CHR 0x0A then [] # split_lines (y # ys)
      else if x = CHR 0x0D \<and> y = CHR 0x0A then [] # split_lines ys
      else (let r = split_lines (y # ys) in (x # hd r) # tl r))"

definition parseSchoolFile :: "string \<Rightarrow> string list" where
  "parseSchoolFile text =
     filter (\<lambda>line. line \<noteq> [] \<and> \<not> startsWith ''#'' line) (map trim (split_lines text))"

text \<open>The two loops of \<open>readSwot\<close> that fill the stoplist and the TLD set.\<close>

definition control_list :: "string \<Rightarrow> string set" where
  "control_list content =
     set (filter (\<lambda>domain. domain \<noteq> [] \<and> \<not> startsWith ''#'' domain)
            (map (\<lambda>line. toLowerCase (trim line)) (split_lines content)))"

text \<open>\<open>path.basename\<close> on the segments of a path.\<close>

definition basename :: "string list \<Rightarrow> string" where
  "basename file = (if file = [] then [] else last file)"

text \<open>The body of the loop over the walked files; the path string is rebuilt for \<open>endsWith\<close>.\<close>

definition merge_file ::
  "(string \<Rightarrow> string) \<Rightarrow> string list \<times> string option \<Rightarrow> (string \<rightharpoonup> string list)
   \<Rightarrow> (string \<rightharpoonup> string list)" where
  "merge_file domainToASCII entry inst =
     (let file = fst entry
      in if \<not> endsWith ''.txt'' (join_with ''/'' file) then inst
         else if basename file = ''stoplist.txt'' then inst
         else if basename file = ''tlds.txt'' then inst
         else if basename file = ''abused.txt'' then inst
         else (let domain = filePathToDomain domainToASCII file
               in case snd entry of
                    None \<Rightarrow> inst
                  | Some content \<Rightarrow>
                      (let schoolNames = parseSchoolFile content
                       in if length schoolNames > 0 \<and> inst domain = None
                          then inst(domain \<mapsto> schoolNames) else inst)))"

definition readSwot :: "(string \<Rightarrow> string) \<Rightarrow> fs_root \<Rightarrow> build_error + SwotData" where
  "readSwot domainToASCII root =
     (case root of
        Missing \<Rightarrow> Inl AccessFailed
      | NotDirectory \<Rightarrow> Inl StoplistUnreadable
      | Directory entries \<Rightarrow>
          (case read_entry ''stoplist.txt'' entries of
             None \<Rightarrow> Inl StoplistUnreadable
           | Some stoplistContent \<Rightarrow>
               (case read_entry ''tlds.txt'' entries of
                  None \<Rightarrow> Inl TldsUnreadable
                | Some tldsContent \<Rightarrow>
                    (case walk [] entries of
                       Inl err \<Rightarrow> Inl err
                     | Inr files \<Rightarrow>
                         Inr \<lparr>institutions = fold (merge_file domainToASCII) files Map.empty,
                              stoplist = control_list stoplistContent,
                              tlds = control_list tldsContent\<rparr>))))"

section \<open>Notions used to state the properties\<close>

subsection \<open>Pieces of a string\<close>

fun after_last :: "char \<Rightarrow> string \<Rightarrow> string" where
  "after_last c [] = []"
| "after_last c (x # xs) =
     (if c \<in> set xs then after_last c xs else if x = c then xs else x # xs)"

definition after_first :: "char \<Rightarrow> string \<Rightarrow> string" where
  "after_first c s = (if c \<in> set s then tl (dropWhile (\<lambda>x. x \<noteq> c) s) else s)"

definition before_first :: "char \<Rightarrow> string \<Rightarrow> string" where
  "before_first c s = takeWhile (\<lambda>x. x \<noteq> c) s"

text \<open>A leading scheme: one or more of the letters \<open>a\<close> to \<open>z\<close>, then \<open>://\<close>.\<close>

definition strip_scheme :: "string \<Rightarrow> string" where
  "strip_scheme s =
     (let r = dropWhile a_to_z s
      in if takeWhile a_to_z s \<noteq> [] \<and> take 3 r = ''://'' then drop 3 r else s)"

definition labels_of_host :: "string \<Rightarrow> string list" where
  "labels_of_host host = (if host = [] then [] else rev (split_on CHR ''.'' host))"

subsection \<open>The normalizer, step by step\<close>

text \<open>
  The host as the specification describes it: everything up to the final \<open>@\<close> goes first,
  then the scheme, then what follows the first \<open>/\<close>, then what follows the first \<open>:\<close>.
\<close>

definition spec_host_of :: "string \<Rightarrow> string" where
  "spec_host_of e =
     before_first CHR '':''
       (before_first CHR ''/''
         (strip_scheme (after_last CHR ''@'' (toLowerCase (trim e)))))"

definition spec_domainParts :: "string \<Rightarrow> string list" where
  "spec_domainParts e = labels_of_host (spec_host_of e)"

text \<open>
  The host in the order of the code: everything up to the first \<open>@\<close> goes first, then the
  scheme; of what precedes the first \<open>/\<close>, everything up to its last \<open>@\<close> goes; then what
  follows the first \<open>:\<close>.
\<close>

definition host_of :: "string \<Rightarrow> string" where
  "host_of e =
     before_first CHR '':''
       (after_last CHR ''@''
         (before_first CHR ''/''
           (strip_scheme (after_first CHR ''@'' (toLowerCase (trim e))))))"

subsection \<open>The suffix walk\<close>

text \<open>The values the accumulator takes, in order, from a given start.\<close>

fun subjects :: "string \<Rightarrow> string list \<Rightarrow> string list" where
  "subjects subj [] = []"
| "subjects subj (part # parts) = extend subj part # subjects (extend subj part) parts"

text \<open>A key counts for \<open>findSchoolNames\<close> when the map has a non-empty list for it.\<close>

definition names_hit :: "(string \<rightharpoonup> string list) \<Rightarrow> string \<Rightarrow> bool" where
  "names_hit m c = (case m c of Some names \<Rightarrow> names \<noteq> [] | None \<Rightarrow> False)"

text \<open>
  The walk as the specification describes it: the first label alone, then always
  \<open>label.accumulator\<close>; a hit is membership, and the map form returns the value of the
  first key that is present.
\<close>

fun spec_subjects_from :: "string \<Rightarrow> string list \<Rightarrow> string list" where
  "spec_subjects_from acc [] = []"
| "spec_subjects_from acc (label # labels) =
     (label @ ''.'' @ acc) # spec_subjects_from (label @ ''.'' @ acc) labels"

fun spec_subjects :: "string list \<Rightarrow> string list" where
  "spec_subjects [] = []"
| "spec_subjects (label # labels) = label # spec_subjects_from label labels"

definition spec_match_set :: "string set \<Rightarrow> string list \<Rightarrow> bool" where
  "spec_match_set S labels = list_ex (\<lambda>c. c \<in> S) (spec_subjects labels)"

definition spec_match_map :: "(string \<rightharpoonup> string list) \<Rightarrow> string list \<Rightarrow> string list" where
  "spec_match_map m labels =
     (case find (\<lambda>c. m c \<noteq> None) (spec_subjects labels) of
        Some c \<Rightarrow> (case m c of Some names \<Rightarrow> names | None \<Rightarrow> [])
      | None \<Rightarrow> [])"

subsection \<open>The shape of an address\<close>

text \<open>
  The shape as the specification describes it: a non-empty run without white space and
  \<open>@\<close>, an \<open>@\<close>, and a run without white space and \<open>@\<close> that contains a dot.
\<close>

definition spec_shape :: "string \<Rightarrow> bool" where
  "spec_shape e =
     (let l = takeWhile (\<lambda>x. x \<noteq> CHR ''@'') e; r = dropWhile (\<lambda>x. x \<noteq> CHR ''@'') e
      in l \<noteq> [] \<and> list_all not_space_at l \<and> r \<noteq> []
         \<and> list_all not_space_at (tl r) \<and> CHR ''.'' \<in> set (tl r))"

text \<open>The shape the expression accepts: the dot is neither the first nor the last character.\<close>

definition shape :: "string \<Rightarrow> bool" where
  "shape e =
     (let l = takeWhile (\<lambda>x. x \<noteq> CHR ''@'') e; r = dropWhile (\<lambda>x. x \<noteq> CHR ''@'') e
      in l \<noteq> [] \<and> list_all not_space_at l \<and> r \<noteq> []
         \<and> list_all not_space_at (tl r) \<and> CHR ''.'' \<in> set (butlast (tl (tl r))))"

text \<open>The classification as the specification describes it, on the specification's shape.\<close>

definition spec_isAcademic :: "SwotData \<Rightarrow> string \<Rightarrow> bool" where
  "spec_isAcademic DATA email =
     (if spec_shape email
      then \<not> isStoplisted DATA email
           \<and> (isUnderTLD DATA email \<or> findSchoolNames DATA email \<noteq> [])
      else False)"

subsection \<open>Canonical keys\<close>

text \<open>
  A canonical domain key: lowercase labels joined by dots, each label non-empty and free
  of white space and of the characters that the normalizer cuts at.
\<close>

definition label_char :: "char \<Rightarrow> bool" where
  "label_char c =
     (\<not> is_space c \<and> c \<noteq> CHR ''.'' \<and> c \<noteq> CHR ''@'' \<and> c \<noteq> CHR ''/'' \<and> c \<noteq> CHR '':''
      \<and> lower_char c = c)"

definition canonical_key :: "string \<Rightarrow> bool" where
  "canonical_key d =
     list_all (\<lambda>label. label \<noteq> [] \<and> list_all label_char label) (split_on CHR ''.'' d)"

subsection \<open>The first file seen for a key\<close>

text \<open>
  The institution files among the walked files that could be read, each with its key and
  its parsed names.
\<close>

definition is_institution_file :: "string list \<Rightarrow> bool" where
  "is_institution_file file =
     (endsWith ''.txt'' (join_with ''/'' file)
      \<and> basename file \<noteq> ''stoplist.txt'' \<and> basename file \<noteq> ''tlds.txt''
      \<and> basename file \<noteq> ''abused.txt'')"

definition candidates ::
  "(string \<Rightarrow> string) \<Rightarrow> (string list \<times> string option) list \<Rightarrow> (string \<times> string list) list" where
  "candidates domainToASCII files =
     concat (map (\<lambda>(file, content).
        case content of
          Some text \<Rightarrow>
            if is_institution_file file
            then [(filePathToDomain domainToASCII file, parseSchoolFile text)] else []
        | None \<Rightarrow> []) files)"

definition first_seen ::
  "(string \<Rightarrow> string) \<Rightarrow> (string list \<times> string option) list \<Rightarrow> string \<Rightarrow> string list option" where
  "first_seen domainToASCII files k =
     map_option snd (find (\<lambda>(d, names). d = k \<and> names \<noteq> []) (candidates domainToASCII files))"

subsection \<open>Example data\<close>

definition example_data :: SwotData where
  "example_data =
     \<lparr>institutions = [''stanford.edu'' \<mapsto> [''Stanford University'']],
      stoplist = {''america.edu''},
      tlds = {''edu'', ''ac.uk''}\<rparr>"

definition example_data_empty_entry :: SwotData where
  "example_data_empty_entry =
     \<lparr>institutions = [''edu'' \<mapsto> [], ''stanford.edu'' \<mapsto> [''Stanford University'']],
      stoplist = {},
      tlds = {}\<rparr>"

text \<open>
  A tree with a reserved file, a file without names, and two files for one key: the walk
  meets \<open>edu/stanford.txt\<close> before \<open>EDU/stanford.txt\<close>.
\<close>

definition example_tree :: fs_root where
  "example_tree =
     Directory
       [File ''stoplist.txt'' (Some ''america.edu''),
        File ''tlds.txt'' (Some ''edu''),
        File ''abused.txt'' (Some ''example.edu''),
        Dir ''edu''
          [File ''stanford.txt'' (Some ''Stanford University''),
           File ''empty.txt'' (Some ''# no name yet'')],
        Dir ''EDU'' [File ''stanford.txt'' (Some ''Another Name'')]]"

section \<open>Strings: basic facts\<close>

lemma after_last_none: "c \<notin> set s \<Longrightarrow> after_last c s = s"
  by (induction s) auto

lemma after_last_split: "c \<notin> set v \<Longrightarrow> after_last c (u @ c # v) = v"
  by (induction u) auto

lemma after_first_none: "c \<notin> set s \<Longrightarrow> after_first c s = s"
  by (simp add: after_first_def)

lemma after_first_split: "c \<notin> set u \<Longrightarrow> after_first c (u @ c # v) = v"
  by (simp add: after_first_def dropWhile_append)

lemma split_on_not_Nil: "split_on c s \<noteq> []"
  by (induction s) (auto simp: Let_def)

lemma hd_split_on: "hd (split_on c s) = before_first c s"
  by (induction s) (auto simp: Let_def before_first_def)

lemma indexOf_from_eq:
  "indexOf_from c i s =
     (if c \<in> set s then i + int (length (takeWhile (\<lambda>x. x \<noteq> c) s)) else - 1)"
  by (induction s arbitrary: i) auto

lemma substring_indexOf: "substring (indexOf c s + 1) s = after_first c s"
proof (cases "c \<in> set s")
  case True
  have "drop (Suc (length (takeWhile (\<lambda>x. x \<noteq> c) s))) s = tl (dropWhile (\<lambda>x. x \<noteq> c) s)"
    by (simp add: dropWhile_eq_drop drop_Suc tl_drop)
  with True show ?thesis
    by (simp add: substring_def indexOf_def indexOf_from_eq after_first_def
        nat_add_distrib Suc_nat_eq_nat_zadd1)
next
  case False
  then show ?thesis
    by (simp add: substring_def indexOf_def indexOf_from_eq after_first_def)
qed

section \<open>The matcher on the three expressions\<close>

lemma match_star_disjoint:
  assumes "\<And>c. p c \<Longrightarrow> \<not> q c"
  shows "match_re (Star p # One q # ps) e s = match_re (One q # ps) e (dropWhile p s)"
  using assms by (induction s) (auto split: option.splits)

lemma match_plus_disjoint:
  assumes "\<And>c. p c \<Longrightarrow> \<not> q c"
  shows "match_re (Plus p # One q # ps) e s =
         (if takeWhile p s = [] then None else match_re (One q # ps) e (dropWhile p s))"
  using assms by (cases s) (auto simp: match_star_disjoint)

lemma match_lits:
  "match_re [One (lit a), One (lit b), One (lit c)] False s =
     (if take 3 s = [a, b, c] then Some (drop 3 s) else None)"
  by (cases s; cases "tl s"; cases "tl (tl s)") (auto simp: lit_def)

lemma replace_re_scheme: "replace_re re_scheme s = strip_scheme s"
proof -
  have "\<And>c. a_to_z c \<Longrightarrow> \<not> lit CHR '':'' c"
    by (auto simp: a_to_z_def lit_def)
  then show ?thesis
    by (simp add: replace_re_def re_scheme_def strip_scheme_def match_plus_disjoint
        match_lits Let_def)
qed

lemma match_star_lit:
  assumes "p a"
  shows "match_re [Star p, One (lit a)] False s =
     (if a \<in> set (takeWhile p s)
      then Some (after_last a (takeWhile p s) @ dropWhile p s)
      else None)"
  using assms by (induction s) (auto simp: lit_def after_last_none split: option.splits)

lemma replace_re_userinfo:
  "replace_re re_userinfo s =
     (if CHR ''@'' \<in> set (takeWhile not_slash s)
      then after_last CHR ''@'' (takeWhile not_slash s) @ dropWhile not_slash s
      else s)"
proof -
  have "not_slash CHR ''@''" by (simp add: not_slash_def)
  then show ?thesis
    by (simp add: replace_re_def re_userinfo_def match_star_lit)
qed

lemma after_last_no_new: "set (after_last c s) \<subseteq> set s"
  by (induction s) auto

lemma before_first_append_sep:
  "c \<notin> set u \<Longrightarrow> (v = [] \<or> hd v = c) \<Longrightarrow> before_first c (u @ v) = u"
  by (cases v) (auto simp: before_first_def takeWhile_tail)

lemma dropWhile_head: "dropWhile P s = [] \<or> \<not> P (hd (dropWhile P s))"
  by (metis hd_dropWhile)

lemma host_before_slash:
  "before_first CHR ''/'' (replace_re re_userinfo s) =
   after_last CHR ''@'' (before_first CHR ''/'' s)"
proof -
  have ns: "not_slash = (\<lambda>x. x \<noteq> CHR ''/'')"
    by (rule ext) (simp add: not_slash_def)
  let ?p = "takeWhile (\<lambda>x. x \<noteq> CHR ''/'') s"
  let ?d = "dropWhile (\<lambda>x. x \<noteq> CHR ''/'') s"
  show ?thesis
  proof (cases "CHR ''@'' \<in> set ?p")
    case True
    have "CHR ''/'' \<notin> set ?p"
      by (auto dest: set_takeWhileD)
    then have a: "CHR ''/'' \<notin> set (after_last CHR ''@'' ?p)"
      using after_last_no_new [of "CHR ''@''" ?p] by blast
    have b: "?d = [] \<or> hd ?d = CHR ''/''"
      using dropWhile_head [of "\<lambda>x. x \<noteq> CHR ''/''" s] by auto
    from True show ?thesis
      by (simp add: replace_re_userinfo ns before_first_append_sep [OF a b])
        (simp add: before_first_def)
  next
    case False
    then show ?thesis
      by (simp add: replace_re_userinfo ns after_last_none before_first_def)
  qed
qed

lemma domainParts_eq: "domainParts e = labels_of_host (host_of e)"
  by (simp add: domainParts_def host_of_def labels_of_host_def Let_def hd_split_on
      substring_indexOf replace_re_scheme host_before_slash)

section \<open>The shape accepted by the address expression\<close>

lemma match_nil_end: "(match_re [] True s \<noteq> None) = (s = [])"
  by simp

lemma match_one_iff:
  "(match_re (One p # ps) e s \<noteq> None) = (\<exists>c v. s = c # v \<and> p c \<and> match_re ps e v \<noteq> None)"
  by (cases s) auto

lemma match_star_iff:
  "(match_re (Star p # ps) e s \<noteq> None) =
   (\<exists>u v. s = u @ v \<and> list_all p u \<and> match_re ps e v \<noteq> None)"
proof (induction s)
  case Nil
  then show ?case by simp
next
  case (Cons c cs)
  show ?case
  proof (cases "p c")
    case True
    have "(match_re (Star p # ps) e (c # cs) \<noteq> None) =
          (match_re (Star p # ps) e cs \<noteq> None \<or> match_re ps e (c # cs) \<noteq> None)"
      using True by (simp split: option.splits)
    also have "\<dots> = ((\<exists>u v. cs = u @ v \<and> list_all p u \<and> match_re ps e v \<noteq> None)
                      \<or> match_re ps e (c # cs) \<noteq> None)"
      by (simp only: Cons.IH)
    also have "\<dots> = (\<exists>u v. c # cs = u @ v \<and> list_all p u \<and> match_re ps e v \<noteq> None)"
      (is "?L = ?R")
    proof
      assume ?L
      then show ?R
      proof
        assume "\<exists>u v. cs = u @ v \<and> list_all p u \<and> match_re ps e v \<noteq> None"
        then obtain u v where "cs = u @ v" "list_all p u" "match_re ps e v \<noteq> None"
          by blast
        then have "c # cs = (c # u) @ v \<and> list_all p (c # u) \<and> match_re ps e v \<noteq> None"
          using True by simp
        then show ?R by blast
      next
        assume "match_re ps e (c # cs) \<noteq> None"
        then have "c # cs = [] @ (c # cs) \<and> list_all p [] \<and> match_re ps e (c # cs) \<noteq> None"
          by simp
        then show ?R by blast
      qed
    next
      assume ?R
      then obtain u v where uv: "c # cs = u @ v" "list_all p u" "match_re ps e v \<noteq> None"
        by blast
      show ?L
      proof (cases u)
        case Nil
        with uv show ?thesis by simp
      next
        case (Cons a u')
        with uv have "cs = u' @ v \<and> list_all p u' \<and> match_re ps e v \<noteq> None"
          by simp
        then show ?thesis by blast
      qed
    qed
    finally show ?thesis .
  next
    case False
    have "(match_re (Star p # ps) e (c # cs) \<noteq> None) = (match_re ps e (c # cs) \<noteq> None)"
      using False by simp
    also have "\<dots> = (\<exists>u v. c # cs = u @ v \<and> list_all p u \<and> match_re ps e v \<noteq> None)"
      (is "?L = ?R")
    proof
      assume ?L
      then have "c # cs = [] @ (c # cs) \<and> list_all p [] \<and> match_re ps e (c # cs) \<noteq> None"
        by simp
      then show ?R by blast
    next
      assume ?R
      then obtain u v where uv: "c # cs = u @ v" "list_all p u" "match_re ps e v \<noteq> None"
        by blast
      then have "u = []"
        using False by (cases u) auto
      with uv show ?L by simp
    qed
    finally show ?thesis .
  qed
qed

lemma match_plus_iff:
  "(match_re (Plus p # ps) e s \<noteq> None) =
   (\<exists>u v. s = u @ v \<and> u \<noteq> [] \<and> list_all p u \<and> match_re ps e v \<noteq> None)"
proof (cases s)
  case Nil
  then show ?thesis by simp
next
  case (Cons c cs)
  show ?thesis
  proof (cases "p c")
    case True
    have "(match_re (Plus p # ps) e s \<noteq> None) = (match_re (Star p # ps) e cs \<noteq> None)"
      using Cons True by simp
    also have "\<dots> = (\<exists>u v. cs = u @ v \<and> list_all p u \<and> match_re ps e v \<noteq> None)"
      by (rule match_star_iff)
    also have "\<dots> = (\<exists>u v. s = u @ v \<and> u \<noteq> [] \<and> list_all p u \<and> match_re ps e v \<noteq> None)"
      (is "?L = ?R")
    proof
      assume ?L
      then obtain u v where "cs = u @ v" "list_all p u" "match_re ps e v \<noteq> None"
        by blast
      then have "s = (c # u) @ v \<and> c # u \<noteq> [] \<and> list_all p (c # u) \<and> match_re ps e v \<noteq> None"
        using Cons True by simp
      then show ?R by blast
    next
      assume ?R
      then obtain u v where uv: "s = u @ v" "u \<noteq> []" "list_all p u" "match_re ps e v \<noteq> None"
        by blast
      then obtain u' where "u = c # u'" "cs = u' @ v"
        using Cons by (cases u) auto
      with uv have "cs = u' @ v \<and> list_all p u' \<and> match_re ps e v \<noteq> None"
        by simp
      then show ?L by blast
    qed
    finally show ?thesis .
  next
    case False
    then show ?thesis
      using Cons by (auto simp: Cons_eq_append_conv)
  qed
qed

lemma test_re_email_iff:
  "test_re re_email True e =
   (\<exists>l x y. e = l @ CHR ''@'' # x @ CHR ''.'' # y \<and> l \<noteq> [] \<and> x \<noteq> [] \<and> y \<noteq> []
      \<and> list_all not_space_at l \<and> list_all not_space_at x \<and> list_all not_space_at y)"
proof -
  have "test_re re_email True e =
        (\<exists>l r. e = l @ r \<and> l \<noteq> [] \<and> list_all not_space_at l \<and>
          (\<exists>c r1. r = c # r1 \<and> c = CHR ''@'' \<and>
            (\<exists>x r2. r1 = x @ r2 \<and> x \<noteq> [] \<and> list_all not_space_at x \<and>
              (\<exists>c r3. r2 = c # r3 \<and> c = CHR ''.'' \<and>
                (\<exists>y r4. r3 = y @ r4 \<and> y \<noteq> [] \<and> list_all not_space_at y \<and> r4 = [])))))"
    unfolding test_re_def re_email_def
    by (simp only: match_plus_iff match_one_iff match_nil_end lit_def)
  also have "\<dots> =
   (\<exists>l x y. e = l @ CHR ''@'' # x @ CHR ''.'' # y \<and> l \<noteq> [] \<and> x \<noteq> [] \<and> y \<noteq> []
      \<and> list_all not_space_at l \<and> list_all not_space_at x \<and> list_all not_space_at y)"
    (is "?L = ?R")
  proof
    assume ?L
    then obtain l x y where "e = l @ CHR ''@'' # x @ CHR ''.'' # y @ []" "l \<noteq> []" "x \<noteq> []"
      "y \<noteq> []" "list_all not_space_at l" "list_all not_space_at x" "list_all not_space_at y"
      by blast
    then show ?R by auto
  next
    assume ?R
    then obtain l x y where h: "e = l @ CHR ''@'' # x @ CHR ''.'' # y" "l \<noteq> []" "x \<noteq> []"
      "y \<noteq> []" "list_all not_space_at l" "list_all not_space_at x" "list_all not_space_at y"
      by blast
    show ?L
      apply (rule exI [of _ l], rule exI [of _ "CHR ''@'' # x @ CHR ''.'' # y"])
      apply (simp add: h)
      apply (rule exI [of _ x], rule exI [of _ "CHR ''.'' # y"])
      apply (simp add: h)
      done
  qed
  finally show ?thesis .
qed

lemma takeWhile_not_at:
  "list_all not_space_at l \<Longrightarrow> takeWhile (\<lambda>x. x \<noteq> CHR ''@'') (l @ CHR ''@'' # r) = l"
  by (induction l) (auto simp: not_space_at_def)

lemma dropWhile_not_at:
  "list_all not_space_at l \<Longrightarrow> dropWhile (\<lambda>x. x \<noteq> CHR ''@'') (l @ CHR ''@'' # r) = CHR ''@'' # r"
  by (induction l) (auto simp: not_space_at_def)

lemma dot_not_space_at: "not_space_at CHR ''.''"
  by (simp add: not_space_at_def is_space_def)

lemma shape_of_parts:
  assumes "l \<noteq> []" "x \<noteq> []" "y \<noteq> []"
    and "list_all not_space_at l" "list_all not_space_at x" "list_all not_space_at y"
  shows "shape (l @ CHR ''@'' # x @ CHR ''.'' # y)"
proof -
  have "tl (x @ CHR ''.'' # y) = tl x @ CHR ''.'' # y"
    using assms(2) by simp
  moreover have "butlast (tl x @ CHR ''.'' # y) = tl x @ CHR ''.'' # butlast y"
    using assms(3) by (simp add: butlast_append)
  ultimately show ?thesis
    using assms by (simp add: shape_def takeWhile_not_at dropWhile_not_at dot_not_space_at)
qed

lemma parts_of_shape:
  assumes "shape e"
  shows "\<exists>l x y. e = l @ CHR ''@'' # x @ CHR ''.'' # y \<and> l \<noteq> [] \<and> x \<noteq> [] \<and> y \<noteq> []
      \<and> list_all not_space_at l \<and> list_all not_space_at x \<and> list_all not_space_at y"
proof -
  let ?l = "takeWhile (\<lambda>x. x \<noteq> CHR ''@'') e"
  let ?r = "dropWhile (\<lambda>x. x \<noteq> CHR ''@'') e"
  let ?d = "tl ?r"
  from assms have l: "?l \<noteq> []" "list_all not_space_at ?l" and r: "?r \<noteq> []"
    and d: "list_all not_space_at ?d" and dot: "CHR ''.'' \<in> set (butlast (tl ?d))"
    by (simp_all add: shape_def Let_def)
  from r have "hd ?r = CHR ''@''"
    using hd_dropWhile [of "\<lambda>x. x \<noteq> CHR ''@''" e] by simp
  with r have r_eq: "?r = CHR ''@'' # ?d"
    by (cases ?r) auto
  from dot obtain m1 m2 where m: "butlast (tl ?d) = m1 @ CHR ''.'' # m2"
    by (auto dest: split_list)
  then have t: "tl ?d \<noteq> []" by auto
  then have d_ne: "?d \<noteq> []" by auto
  have "tl ?d = butlast (tl ?d) @ [last (tl ?d)]"
    using t by simp
  with m have tl_eq: "tl ?d = m1 @ CHR ''.'' # m2 @ [last (tl ?d)]"
    by simp
  have "?d = hd ?d # tl ?d"
    using d_ne by simp
  with tl_eq have d_eq: "?d = (hd ?d # m1) @ CHR ''.'' # (m2 @ [last (tl ?d)])"
    by simp
  have "e = ?l @ ?r" by simp
  with r_eq d_eq have e_eq: "e = ?l @ CHR ''@'' # (hd ?d # m1) @ CHR ''.'' # (m2 @ [last (tl ?d)])"
    by metis
  have "list_all not_space_at ((hd ?d # m1) @ CHR ''.'' # (m2 @ [last (tl ?d)]))"
    using d d_eq by metis
  then have "list_all not_space_at (hd ?d # m1)" "list_all not_space_at (m2 @ [last (tl ?d)])"
    by simp_all
  with e_eq l show ?thesis
    by blast
qed

lemma test_re_email_shape: "test_re re_email True e = shape e"
  unfolding test_re_email_iff
  using shape_of_parts parts_of_shape by blast

lemma isAcademic_eq:
  "isAcademic DATA e =
   (shape e \<and> \<not> isStoplisted DATA e \<and> (isUnderTLD DATA e \<or> findSchoolNames DATA e \<noteq> []))"
  by (simp add: isAcademic_def test_re_email_shape Let_def)

section \<open>Where the description and the code agree\<close>

lemma after_last_after_first: "after_last c (after_first c s) = after_last c s"
  by (induction s) (auto simp: after_first_def after_last_none)

lemma set_strip_scheme: "set (strip_scheme s) \<subseteq> set s"
  by (auto simp: strip_scheme_def Let_def dest: in_set_dropD set_dropWhileD)

lemma set_before_first: "set (before_first c s) \<subseteq> set s"
  by (auto simp: before_first_def dest: set_takeWhileD)

lemma domainParts_one_at:
  assumes "CHR ''@'' \<notin> set (after_first CHR ''@'' (toLowerCase (trim e)))"
  shows "domainParts e = spec_domainParts e"
proof -
  let ?a = "after_first CHR ''@'' (toLowerCase (trim e))"
  have "after_last CHR ''@'' (toLowerCase (trim e)) = after_last CHR ''@'' ?a"
    by (simp add: after_last_after_first)
  also have "\<dots> = ?a"
    using assms by (rule after_last_none)
  finally have 1: "after_last CHR ''@'' (toLowerCase (trim e)) = ?a" .
  have "CHR ''@'' \<notin> set (before_first CHR ''/'' (strip_scheme ?a))"
    using assms set_strip_scheme [of ?a] set_before_first [of "CHR ''/''" "strip_scheme ?a"]
    by blast
  then have 2: "after_last CHR ''@'' (before_first CHR ''/'' (strip_scheme ?a))
      = before_first CHR ''/'' (strip_scheme ?a)"
    by (rule after_last_none)
  show ?thesis
    by (simp add: domainParts_eq spec_domainParts_def host_of_def spec_host_of_def 1 2)
qed

lemma shape_spec_shape: "shape e \<Longrightarrow> spec_shape e"
proof -
  assume s: "shape e"
  let ?d = "tl (dropWhile (\<lambda>x. x \<noteq> CHR ''@'') e)"
  from s have "CHR ''.'' \<in> set (butlast (tl ?d))"
    by (simp add: shape_def Let_def)
  then have "CHR ''.'' \<in> set (tl ?d)"
    by (rule in_set_butlastD)
  then have "CHR ''.'' \<in> set ?d"
    by (cases ?d) auto
  with s show ?thesis
    by (simp add: shape_def spec_shape_def Let_def)
qed

section \<open>The suffix walk\<close>

lemma checkSet_loop_subjects:
  "checkSet_loop S subj parts = list_ex (\<lambda>c. c \<in> S) (subjects subj parts)"
  by (induction parts arbitrary: subj) (simp_all add: Let_def)

lemma findSchoolNames_loop_find:
  "findSchoolNames_loop m subj parts =
     (case find (names_hit m) (subjects subj parts) of
        Some c \<Rightarrow> (case m c of Some names \<Rightarrow> names | None \<Rightarrow> [])
      | None \<Rightarrow> [])"
  by (induction parts arbitrary: subj)
    (simp_all add: Let_def names_hit_def split: option.splits)

lemma length_subjects: "length (subjects subj parts) = length parts"
  by (induction parts arbitrary: subj) simp_all

lemma subjects_append:
  "subjects subj (xs @ ys) = subjects subj xs @ subjects (foldl extend subj xs) ys"
  by (induction xs arbitrary: subj) simp_all

lemma subjects_nth:
  "k < length parts \<Longrightarrow> subjects subj parts ! k = foldl extend subj (take (Suc k) parts)"
proof (induction parts arbitrary: subj k)
  case Nil
  then show ?case by simp
next
  case (Cons p ps)
  then show ?case by (cases k) simp_all
qed

lemma subjects_take: "subjects subj (take k parts) = take k (subjects subj parts)"
proof (induction parts arbitrary: subj k)
  case Nil
  then show ?case by simp
next
  case (Cons p ps)
  then show ?case by (cases k) simp_all
qed

lemma join_with_Cons:
  "join_with sep (x # xs) = (if xs = [] then x else x @ sep @ join_with sep xs)"
  by (cases xs) simp_all

lemma foldl_extend_not_Nil: "subj \<noteq> [] \<Longrightarrow> foldl extend subj parts \<noteq> []"
  by (induction parts arbitrary: subj) (simp_all add: extend_def)

lemma foldl_extend_join:
  "parts \<noteq> [] \<Longrightarrow> hd parts \<noteq> [] \<Longrightarrow> foldl extend [] parts = join_with ''.'' (rev parts)"
proof (induction parts rule: rev_induct)
  case Nil
  then show ?case by simp
next
  case (snoc x xs)
  show ?case
  proof (cases xs)
    case Nil
    then show ?thesis by (simp add: extend_def)
  next
    case (Cons y ys)
    with snoc.prems have y: "y \<noteq> []" by simp
    have e0: "extend [] y = y"
      by (simp add: extend_def)
    have ne: "foldl extend [] xs \<noteq> []"
      using Cons y by (simp add: e0 foldl_extend_not_Nil)
    have ih: "foldl extend [] xs = join_with ''.'' (rev xs)"
      using snoc.IH Cons y by simp
    have "foldl extend [] (xs @ [x]) = extend (foldl extend [] xs) x"
      by simp
    also have "\<dots> = x @ ''.'' @ foldl extend [] xs"
      using ne by (simp add: extend_def)
    also have "\<dots> = join_with ''.'' (rev (xs @ [x]))"
      using ih Cons by (simp add: join_with_Cons)
    finally show ?thesis .
  qed
qed

lemma subjects_suffixes:
  assumes "k < length parts" and "hd parts \<noteq> []"
  shows "subjects [] parts ! k = join_with ''.'' (rev (take (Suc k) parts))"
proof -
  from assms(1) have "parts \<noteq> []" by auto
  then have "take (Suc k) parts \<noteq> []" "hd (take (Suc k) parts) = hd parts"
    by (cases parts; simp)+
  with assms show ?thesis
    by (simp add: subjects_nth foldl_extend_join)
qed

lemma take_subjects_append:
  "k < length parts \<Longrightarrow>
   subjects subj (take (Suc k) parts @ rest) =
   take (Suc k) (subjects subj parts) @ subjects (foldl extend subj (take (Suc k) parts)) rest"
  by (simp add: subjects_append subjects_take)

lemma checkSet_prefix:
  assumes "k < length parts" and "subjects [] parts ! k \<in> S"
  shows "checkSet S (take (Suc k) parts @ rest)"
proof -
  have "subjects [] parts ! k \<in> set (take (Suc k) (subjects [] parts))"
    using assms(1) by (simp add: in_set_conv_nth length_subjects) (metis lessI nth_take)
  with assms show ?thesis
    by (auto simp: checkSet_def checkSet_loop_subjects take_subjects_append list_ex_iff)
qed

lemma find_append_hit:
  "x \<in> set xs \<Longrightarrow> P x \<Longrightarrow> find P (xs @ ys) = find P xs"
  by (induction xs) auto

lemma findSchoolNames_loop_prefix:
  assumes "k < length parts" and "names_hit m (subjects [] parts ! k)"
  shows "findSchoolNames_loop m [] (take (Suc k) parts @ rest) = findSchoolNames_loop m [] parts"
proof -
  let ?pre = "take (Suc k) (subjects [] parts)"
  have mem: "subjects [] parts ! k \<in> set ?pre"
    using assms(1) by (simp add: in_set_conv_nth length_subjects) (metis lessI nth_take)
  have hit: "\<And>ys. find (names_hit m) (?pre @ ys) = find (names_hit m) ?pre"
    using mem assms(2) by (rule find_append_hit)
  have "subjects [] parts = ?pre @ drop (Suc k) (subjects [] parts)"
    by simp
  then have "find (names_hit m) (subjects [] parts) = find (names_hit m) ?pre"
    using hit by metis
  moreover have "find (names_hit m) (subjects [] (take (Suc k) parts @ rest)) = find (names_hit m) ?pre"
    using assms(1) hit by (simp add: take_subjects_append)
  ultimately show ?thesis
    by (simp add: findSchoolNames_loop_find)
qed

lemma spec_subjects_from_eq: "acc \<noteq> [] \<Longrightarrow> subjects acc labels = spec_subjects_from acc labels"
  by (induction labels arbitrary: acc) (simp_all add: extend_def)

lemma spec_subjects_eq: "[] \<notin> set (take 1 labels) \<Longrightarrow> subjects [] labels = spec_subjects labels"
  by (cases labels) (simp_all add: extend_def spec_subjects_from_eq)

lemma hd_not_Nil: "[] \<notin> set (take 1 labels) \<Longrightarrow> labels \<noteq> [] \<Longrightarrow> hd labels \<noteq> []"
  by (cases labels) simp_all

section \<open>The empty data set\<close>

lemma checkSet_loop_empty: "\<not> checkSet_loop {} subj parts"
  by (induction parts arbitrary: subj) (simp_all add: Let_def)

lemma findSchoolNames_loop_empty: "findSchoolNames_loop Map.empty subj parts = []"
  by (induction parts arbitrary: subj) (simp_all add: Let_def)

lemma loadData_None:
  "loadData None = \<lparr>institutions = Map.empty, stoplist = {}, tlds = {}\<rparr>"
  by (simp add: loadData_def map_of_entries_def)

lemma findSchoolNames_Nil_iff:
  "(findSchoolNames DATA e = []) =
   (\<not> list_ex (names_hit (institutions DATA)) (subjects [] (domainParts e)))"
proof (cases "find (names_hit (institutions DATA)) (subjects [] (domainParts e))")
  case None
  then have "findSchoolNames DATA e = []"
    by (simp add: findSchoolNames_def findSchoolNames_loop_find)
  moreover from None have "\<not> list_ex (names_hit (institutions DATA)) (subjects [] (domainParts e))"
    by (simp add: find_None_iff list_ex_iff)
  ultimately show ?thesis by simp
next
  case (Some c)
  then have c: "c \<in> set (subjects [] (domainParts e))" "names_hit (institutions DATA) c"
    by (auto simp: find_Some_iff)
  then have "list_ex (names_hit (institutions DATA)) (subjects [] (domainParts e))"
    by (auto simp: list_ex_iff)
  moreover have "findSchoolNames DATA e \<noteq> []"
    using Some c(2)
    by (simp add: findSchoolNames_def findSchoolNames_loop_find names_hit_def split: option.splits)
  ultimately show ?thesis by simp
qed

section \<open>Canonical keys pass the normalizer unchanged\<close>

lemma join_split_on: "join_with [c] (split_on c s) = s"
proof (induction s)
  case Nil
  then show ?case by simp
next
  case (Cons x xs)
  have r: "split_on c xs = hd (split_on c xs) # tl (split_on c xs)"
    using split_on_not_Nil [of c xs] by simp
  show ?case
  proof (cases "x = c")
    case True
    then show ?thesis
      using Cons.IH by (simp add: join_with_Cons split_on_not_Nil)
  next
    case False
    have "join_with [c] (hd (split_on c xs) # tl (split_on c xs)) = xs"
      using Cons.IH r by simp
    then show ?thesis
      using False by (simp add: join_with_Cons Let_def split: if_splits)
  qed
qed

lemma in_split_on:
  "x \<in> set s \<Longrightarrow> x \<noteq> c \<Longrightarrow> \<exists>l \<in> set (split_on c s). x \<in> set l"
proof (induction s)
  case Nil
  then show ?case by simp
next
  case (Cons y ys)
  have r: "split_on c ys = hd (split_on c ys) # tl (split_on c ys)"
    using split_on_not_Nil [of c ys] by simp
  show ?case
  proof (cases "x = y")
    case True
    with Cons.prems show ?thesis
      by (simp add: Let_def)
  next
    case False
    with Cons obtain l where l: "l \<in> set (split_on c ys)" "x \<in> set l"
      by auto
    show ?thesis
    proof (cases "y = c")
      case True
      with l show ?thesis by auto
    next
      case yc: False
      from l(1) r have "l = hd (split_on c ys) \<or> l \<in> set (tl (split_on c ys))"
        by (metis set_ConsD)
      with l(2) yc show ?thesis
        by (auto simp: Let_def)
    qed
  qed
qed

lemma canonical_key_chars:
  assumes "canonical_key d" and "x \<in> set d"
  shows "x = CHR ''.'' \<or> label_char x"
proof (cases "x = CHR ''.''")
  case True
  then show ?thesis by simp
next
  case False
  with assms(2) obtain l where "l \<in> set (split_on CHR ''.'' d)" "x \<in> set l"
    using in_split_on by blast
  with assms(1) show ?thesis
    by (auto simp: canonical_key_def list_all_iff)
qed

lemma canonical_key_not_Nil: "canonical_key d \<Longrightarrow> d \<noteq> []"
  by (auto simp: canonical_key_def)

lemma lower_char_dot: "lower_char CHR ''.'' = CHR ''.''"
  by code_simp

lemma canonical_key_plain:
  assumes "canonical_key d" and "x \<in> set d"
  shows "\<not> is_space x" and "x \<noteq> CHR ''@''" and "x \<noteq> CHR ''/''" and "x \<noteq> CHR '':''"
    and "lower_char x = x"
  using canonical_key_chars [OF assms]
  by (auto simp: label_char_def is_space_def lower_char_dot)

lemma trim_id:
  assumes "s \<noteq> []" and "\<not> is_space (hd s)" and "\<not> is_space (last s)"
  shows "trim s = s"
proof -
  have 1: "dropWhile is_space s = s"
    using assms(2) by (simp add: dropWhile_eq_self_iff)
  have "hd (rev s) = last s"
    using assms(1) by (simp add: hd_rev)
  then have 2: "dropWhile is_space (rev s) = rev s"
    using assms(3) by (simp add: dropWhile_eq_self_iff)
  show ?thesis
    by (simp add: trim_def 1 2)
qed

lemma toLowerCase_id: "(\<And>x. x \<in> set s \<Longrightarrow> lower_char x = x) \<Longrightarrow> toLowerCase s = s"
  by (simp add: toLowerCase_def map_idI)

lemma strip_scheme_id: "CHR '':'' \<notin> set s \<Longrightarrow> strip_scheme s = s"
proof -
  assume a: "CHR '':'' \<notin> set s"
  have "take 3 (dropWhile a_to_z s) \<noteq> ''://''"
  proof
    assume "take 3 (dropWhile a_to_z s) = ''://''"
    then have "CHR '':'' \<in> set (take 3 (dropWhile a_to_z s))"
      by simp
    then have "CHR '':'' \<in> set s"
      by (meson in_set_takeD set_dropWhileD)
    with a show False by simp
  qed
  then show ?thesis
    by (simp add: strip_scheme_def Let_def)
qed

lemma before_first_id: "c \<notin> set s \<Longrightarrow> before_first c s = s"
  by (auto simp: before_first_def)

lemma host_of_after_at:
  assumes "canonical_key d"
  shows "before_first CHR '':'' (after_last CHR ''@'' (before_first CHR ''/'' (strip_scheme d))) = d"
proof -
  have "CHR '':'' \<notin> set d" "CHR ''/'' \<notin> set d" "CHR ''@'' \<notin> set d"
    using canonical_key_plain [OF assms] by blast+
  then show ?thesis
    by (simp add: strip_scheme_id before_first_id after_last_none)
qed

lemma host_of_canonical: "canonical_key d \<Longrightarrow> host_of d = d"
proof -
  assume c: "canonical_key d"
  then have ne: "d \<noteq> []" by (rule canonical_key_not_Nil)
  then have "hd d \<in> set d" "last d \<in> set d" by simp_all
  then have "\<not> is_space (hd d)" "\<not> is_space (last d)"
    using canonical_key_plain(1) [OF c] by blast+
  then have t: "trim d = d" using ne by (simp add: trim_id)
  have l: "toLowerCase d = d"
    using canonical_key_plain(5) [OF c] by (rule toLowerCase_id)
  have "CHR ''@'' \<notin> set d"
    using canonical_key_plain(2) [OF c] by blast
  then have a: "after_first CHR ''@'' d = d" by (rule after_first_none)
  show ?thesis
    by (simp add: host_of_def t l a host_of_after_at [OF c])
qed

lemma lower_user_at: "toLowerCase ''user@'' = ''user@''"
  by code_simp

lemma host_of_user_at_canonical: "canonical_key d \<Longrightarrow> host_of (''user@'' @ d) = d"
proof -
  assume c: "canonical_key d"
  then have ne: "d \<noteq> []" by (rule canonical_key_not_Nil)
  then have "last d \<in> set d" by simp
  then have "\<not> is_space (last d)"
    using canonical_key_plain(1) [OF c] by blast
  moreover have "\<not> is_space CHR ''u''" by (simp add: is_space_def)
  ultimately have t: "trim (''user@'' @ d) = ''user@'' @ d"
    using ne by (intro trim_id) simp_all
  have "toLowerCase d = d"
    using canonical_key_plain(5) [OF c] by (rule toLowerCase_id)
  then have l: "toLowerCase (''user@'' @ d) = ''user@'' @ d"
    using lower_user_at by (simp add: toLowerCase_def)
  have a: "after_first CHR ''@'' (''user@'' @ d) = d"
    using after_first_split [of "CHR ''@''" "''user''" d] by simp
  show ?thesis
    by (simp only: host_of_def t l a host_of_after_at [OF c])
qed

lemma checkSet_whole:
  assumes "parts \<noteq> []" and "hd parts \<noteq> []" and "join_with ''.'' (rev parts) \<in> S"
  shows "checkSet S parts"
proof -
  let ?k = "length parts - 1"
  have k: "?k < length parts" using assms(1) by simp
  then have "subjects [] parts ! ?k = join_with ''.'' (rev (take (Suc ?k) parts))"
    using assms(2) by (rule subjects_suffixes)
  then have "subjects [] parts ! ?k \<in> S"
    using assms(1,3) by simp
  moreover have "subjects [] parts ! ?k \<in> set (subjects [] parts)"
    using k by (simp add: length_subjects)
  ultimately show ?thesis
    by (auto simp: checkSet_def checkSet_loop_subjects list_ex_iff)
qed

lemma checkSet_labels_of_canonical:
  assumes "canonical_key d" and "d \<in> S"
  shows "checkSet S (labels_of_host d)"
proof -
  let ?ls = "split_on CHR ''.'' d"
  have ne: "d \<noteq> []" using assms(1) by (rule canonical_key_not_Nil)
  have ls: "?ls \<noteq> []" by (rule split_on_not_Nil)
  then have "last ?ls \<in> set ?ls" by simp
  then have "last ?ls \<noteq> []"
    using assms(1) by (auto simp: canonical_key_def list_all_iff)
  then have h: "hd (rev ?ls) \<noteq> []"
    using ls by (simp add: hd_rev)
  have "join_with ''.'' (rev (rev ?ls)) = d"
    using join_split_on [of "CHR ''.''" d] by simp
  with assms(2) have "join_with ''.'' (rev (rev ?ls)) \<in> S" by simp
  with ls h have "checkSet S (rev ?ls)"
    by (intro checkSet_whole) simp_all
  with ne show ?thesis
    by (simp add: labels_of_host_def)
qed

lemma isStoplisted_canonical:
  assumes "canonical_key d" and "d \<in> stoplist DATA"
  shows "isStoplisted DATA d" and "isStoplisted DATA (''user@'' @ d)"
proof -
  have c: "checkSet (stoplist DATA) (labels_of_host d)"
    using assms by (rule checkSet_labels_of_canonical)
  show "isStoplisted DATA d"
    using c by (simp only: isStoplisted_def domainParts_eq host_of_canonical [OF assms(1)])
  show "isStoplisted DATA (''user@'' @ d)"
    using c
    by (simp only: isStoplisted_def domainParts_eq host_of_user_at_canonical [OF assms(1)])
qed

section \<open>White space around the input\<close>

lemma dropWhile_rev_dropWhile:
  assumes "a = [] \<or> \<not> P (hd a)"
  shows "dropWhile P (rev (dropWhile P (rev a))) = rev (dropWhile P (rev a))"
proof -
  define b where "b = dropWhile P (rev a)"
  show ?thesis
  proof (cases "b = []")
    case True
    then show ?thesis by (simp only: b_def [symmetric]) simp
  next
    case False
    then have ra: "rev a \<noteq> []" by (auto simp: b_def)
    then have a: "a \<noteq> []" by simp
    have "rev a = takeWhile P (rev a) @ b"
      by (simp add: b_def)
    then have "last (rev a) = last b"
      using False by (metis last_appendR)
    then have "last b = hd a"
      using a by (simp add: last_rev)
    then have "hd (rev b) = hd a"
      using False by (simp add: hd_rev)
    then have "\<not> P (hd (rev b))"
      using assms a by simp
    then have "dropWhile P (rev b) = rev b"
      by (simp add: dropWhile_eq_self_iff)
    then show ?thesis
      by (simp only: b_def [symmetric])
  qed
qed

lemma trim_trim: "trim (trim s) = trim s"
proof -
  have "dropWhile is_space s = [] \<or> \<not> is_space (hd (dropWhile is_space s))"
    by (rule dropWhile_head)
  then have 1: "dropWhile is_space (rev (dropWhile is_space (rev (dropWhile is_space s))))
      = rev (dropWhile is_space (rev (dropWhile is_space s)))"
    by (rule dropWhile_rev_dropWhile)
  show ?thesis
    by (simp add: trim_def 1)
qed

lemma domainParts_trim: "domainParts (trim s) = domainParts s"
  by (simp add: domainParts_def trim_trim)

section \<open>The merge of the institution files\<close>

lemma merge_file_eq:
  "merge_file f (file, content) inst =
     (case content of
        Some text \<Rightarrow>
          if is_institution_file file \<and> parseSchoolFile text \<noteq> []
             \<and> inst (filePathToDomain f file) = None
          then inst(filePathToDomain f file \<mapsto> parseSchoolFile text) else inst
      | None \<Rightarrow> inst)"
  by (simp add: merge_file_def is_institution_file_def Let_def split: option.splits)

lemma candidates_Cons:
  "candidates f ((file, content) # files) =
     (case content of
        Some text \<Rightarrow>
          if is_institution_file file
          then (filePathToDomain f file, parseSchoolFile text) # candidates f files
          else candidates f files
      | None \<Rightarrow> candidates f files)"
  by (simp add: candidates_def split: option.splits)

lemma first_seen_Nil: "first_seen f [] k = None"
  by (simp add: first_seen_def candidates_def)

lemma first_seen_Cons:
  "first_seen f ((file, content) # files) k =
     (case content of
        Some text \<Rightarrow>
          if is_institution_file file \<and> parseSchoolFile text \<noteq> []
             \<and> filePathToDomain f file = k
          then Some (parseSchoolFile text) else first_seen f files k
      | None \<Rightarrow> first_seen f files k)"
  by (auto simp: first_seen_def candidates_Cons split: option.splits)

lemma fold_merge_file:
  "fold (merge_file f) files inst k =
     (case inst k of Some v \<Rightarrow> Some v | None \<Rightarrow> first_seen f files k)"
proof (induction files arbitrary: inst)
  case Nil
  then show ?case
    by (simp add: first_seen_Nil split: option.splits)
next
  case (Cons entry files)
  obtain path content where entry: "entry = (path, content)"
    by (cases entry)
  show ?case
  proof (cases content)
    case None
    then show ?thesis
      unfolding entry by (simp add: Cons.IH merge_file_eq first_seen_Cons split: option.splits)
  next
    case (Some body)
    then show ?thesis
      unfolding entry
      by (simp add: Cons.IH merge_file_eq first_seen_Cons split: option.splits)
  qed
qed

lemma first_seen_non_empty: "first_seen f files k = Some v \<Longrightarrow> v \<noteq> []"
proof -
  assume "first_seen f files k = Some v"
  then obtain d where "find (\<lambda>(d, names). d = k \<and> names \<noteq> []) (candidates f files) = Some (d, v)"
    by (auto simp: first_seen_def)
  then show "v \<noteq> []"
    by (auto simp: find_Some_iff)
qed

lemma readSwot_Inr:
  assumes "readSwot f root = Inr r"
  shows "\<exists>entries files. root = Directory entries \<and> walk [] entries = Inr files
           \<and> institutions r = fold (merge_file f) files Map.empty"
  using assms
  by (auto simp: readSwot_def split: fs_root.splits option.splits sum.splits)

lemma readSwot_first_seen:
  assumes "readSwot f root = Inr r"
  shows "\<exists>entries files. root = Directory entries \<and> walk [] entries = Inr files
           \<and> (\<forall>k. institutions r k = first_seen f files k)"
proof -
  from readSwot_Inr [OF assms] obtain entries files where
    h: "root = Directory entries" "walk [] entries = Inr files"
       "institutions r = fold (merge_file f) files Map.empty"
    by blast
  then have "\<forall>k. institutions r k = first_seen f files k"
    by (simp add: fold_merge_file)
  with h show ?thesis
    by blast
qed

section \<open>The classification of an address\<close>

text \<open>
  C1, as stated: \<open>isAcademic\<close> accepts the shape "a run, an \<open>@\<close>, a run that contains a
  dot" and then answers "not stoplisted, and under an academic TLD or with a known
  institution". The address \<open>a@.edu\<close> has that shape and is under the TLD \<open>edu\<close>, and
  \<open>isAcademic\<close> rejects it: the expression wants a character on each side of the dot.
\<close>

theorem isAcademic_spec_shape_counterexample:
  "spec_shape ''a@.edu''
   \<and> isAcademic example_data ''a@.edu'' \<noteq> spec_isAcademic example_data ''a@.edu''"
  by code_simp

text \<open>
  C1, amended: for every string, \<open>isAcademic\<close> is false unless the string is a non-empty
  run without white space and \<open>@\<close>, an \<open>@\<close>, and a run without white space and \<open>@\<close> that
  has a dot which is neither its first nor its last character; on such a string it is
  "not stoplisted, and under an academic TLD or with a non-empty list of institution
  names". It always returns a truth value.
\<close>

theorem isAcademic_shape_then_lookup:
  "isAcademic DATA email =
   (if shape email
    then \<not> isStoplisted DATA email
         \<and> (isUnderTLD DATA email \<or> findSchoolNames DATA email \<noteq> [])
    else False)"
  by (simp add: isAcademic_eq)

theorem isAcademic_shape_then_lookup_witness:
  "shape ''jane.doe@ox.ac.uk'' \<and> isAcademic example_data ''jane.doe@ox.ac.uk''
   \<and> \<not> shape ''jane.doe'' \<and> \<not> isAcademic example_data ''jane.doe''"
proof -
  have a: "shape ''jane.doe@ox.ac.uk''" and b: "\<not> shape ''jane.doe''"
    by code_simp+
  have c: "\<not> isStoplisted example_data ''jane.doe@ox.ac.uk''"
    and d: "isUnderTLD example_data ''jane.doe@ox.ac.uk''"
    by code_simp+
  show ?thesis
    using a b c d
      isAcademic_shape_then_lookup [of example_data "''jane.doe@ox.ac.uk''"]
      isAcademic_shape_then_lookup [of example_data "''jane.doe''"]
    by simp
qed

section \<open>The normalizer\<close>

text \<open>
  C2, as stated: the normalizer discards everything up to the final \<open>@\<close> before it strips
  the scheme and cuts at the first \<open>/\<close>. On \<open>a@b.edu/c@d.com\<close> that gives the labels of
  \<open>d.com\<close>, and \<open>domainParts\<close> gives the labels of \<open>b.edu\<close>.
\<close>

theorem domainParts_final_at_counterexample:
  "domainParts ''a@b.edu/c@d.com'' = [''edu'', ''b'']
   \<and> spec_domainParts ''a@b.edu/c@d.com'' = [''com'', ''d'']"
  by code_simp

text \<open>
  C2, amended: for every input string, the normalizer trims and lowercases; discards
  everything up to and including the first \<open>@\<close>; strips a leading \<open>scheme://\<close> (letters
  \<open>a\<close> to \<open>z\<close>) if present; takes the substring before the first \<open>/\<close>; discards from it
  everything up to and including its last \<open>@\<close>; takes the substring before the first
  \<open>:\<close>; and returns no label if that host is empty, and otherwise its dot-separated
  labels in reversed order.
\<close>

theorem domainParts_by_steps:
  "domainParts e =
   (let host =
      before_first CHR '':''
        (after_last CHR ''@''
          (before_first CHR ''/''
            (strip_scheme (after_first CHR ''@'' (toLowerCase (trim e))))))
    in if host = [] then [] else rev (split_on CHR ''.'' host))"
  using domainParts_eq [of e] by (simp add: host_of_def labels_of_host_def Let_def)

section \<open>Properties of the suffix matcher\<close>

text \<open>
  C3, as stated: after the first label the accumulator always becomes
  \<open>label.accumulator\<close>, and the map form returns at the first key that is present. The
  labels of \<open>edu.\<close> start with an empty label, after which the code takes \<open>edu\<close> alone
  and finds it in the set, where the description tests \<open>edu.\<close>; and a key with an empty
  list does not stop \<open>findSchoolNames\<close>, which goes on to the more specific key.
\<close>

theorem suffix_walk_counterexample:
  "checkSet {''edu''} ['''', ''edu'']
   \<and> \<not> spec_match_set {''edu''} ['''', ''edu'']
   \<and> findSchoolNames_loop (institutions example_data_empty_entry) [] [''edu'', ''stanford'']
       = [''Stanford University'']
   \<and> spec_match_map (institutions example_data_empty_entry) [''edu'', ''stanford''] = []"
  by code_simp

text \<open>
  C3, amended: for every label sequence whose first label is not empty, every suffix set
  and every suffix-keyed map, the matcher extends an initially empty accumulator one
  label at a time, to the first label alone and then to \<open>label.accumulator\<close>, so that
  after \<open>k + 1\<close> labels it holds these labels reversed and joined by dots, and it tests
  after each extension. The set form is true exactly when one of these accumulator values
  is in the set; the map form returns the list of the first accumulator value that the
  map sends to a non-empty list, and \<open>[]\<close> when there is none. The first hit decides:
  the labels after it are never looked at, whatever they are, so the least specific
  suffix that hits wins.
\<close>

theorem suffix_walk_first_hit:
  assumes "[] \<notin> set (take 1 parts)"
  shows
  "checkSet S parts = list_ex (\<lambda>c. c \<in> S) (spec_subjects parts)
   \<and> findSchoolNames_loop m [] parts =
       (case find (names_hit m) (spec_subjects parts) of
          Some c \<Rightarrow> (case m c of Some names \<Rightarrow> names | None \<Rightarrow> [])
        | None \<Rightarrow> [])
   \<and> (\<forall>k rest. k < length parts \<and> spec_subjects parts ! k \<in> S
         \<longrightarrow> checkSet S (take (Suc k) parts @ rest))
   \<and> (\<forall>k rest. k < length parts \<and> names_hit m (spec_subjects parts ! k)
         \<longrightarrow> findSchoolNames_loop m [] (take (Suc k) parts @ rest)
             = findSchoolNames_loop m [] parts)
   \<and> (\<forall>k. k < length parts
         \<longrightarrow> spec_subjects parts ! k = join_with ''.'' (rev (take (Suc k) parts)))"
proof -
  have eq: "subjects [] parts = spec_subjects parts"
    using assms by (rule spec_subjects_eq)
  have hd: "\<And>k. k < length parts \<Longrightarrow> hd parts \<noteq> []"
  proof -
    fix k
    assume "k < length parts"
    then have "parts \<noteq> []" by auto
    with assms show "hd parts \<noteq> []" by (rule hd_not_Nil)
  qed
  have c1: "checkSet S parts = list_ex (\<lambda>c. c \<in> S) (spec_subjects parts)"
    by (simp add: checkSet_def checkSet_loop_subjects eq)
  have c2: "findSchoolNames_loop m [] parts =
       (case find (names_hit m) (spec_subjects parts) of
          Some c \<Rightarrow> (case m c of Some names \<Rightarrow> names | None \<Rightarrow> [])
        | None \<Rightarrow> [])"
    by (simp add: findSchoolNames_loop_find eq)
  have c3: "\<forall>k rest. k < length parts \<and> spec_subjects parts ! k \<in> S
         \<longrightarrow> checkSet S (take (Suc k) parts @ rest)"
    using checkSet_prefix [of _ parts S] unfolding eq by blast
  have c4: "\<forall>k rest. k < length parts \<and> names_hit m (spec_subjects parts ! k)
         \<longrightarrow> findSchoolNames_loop m [] (take (Suc k) parts @ rest)
             = findSchoolNames_loop m [] parts"
    using findSchoolNames_loop_prefix [of _ parts m] unfolding eq by blast
  have c5: "\<forall>k. k < length parts
         \<longrightarrow> spec_subjects parts ! k = join_with ''.'' (rev (take (Suc k) parts))"
    using subjects_suffixes [of _ parts] hd unfolding eq by blast
  from c1 c2 c3 c4 c5 show ?thesis
    by (intro conjI)
qed

theorem suffix_walk_first_hit_witness:
  "[] \<notin> set (take 1 [''uk'', ''ac'', ''ox''])
   \<and> (1::nat) < length [''uk'', ''ac'', ''ox'']
   \<and> spec_subjects [''uk'', ''ac'', ''ox''] ! 1 \<in> {''ac.uk''}
   \<and> checkSet {''ac.uk''} (take (Suc 1) [''uk'', ''ac'', ''ox''] @ [''other''])
   \<and> spec_subjects [''uk'', ''ac'', ''ox''] ! 1
       = join_with ''.'' (rev (take (Suc 1) [''uk'', ''ac'', ''ox'']))
   \<and> [] \<notin> set (take 1 [''edu'', ''stanford'', ''cs''])
   \<and> (1::nat) < length [''edu'', ''stanford'', ''cs'']
   \<and> names_hit (institutions example_data) (spec_subjects [''edu'', ''stanford'', ''cs''] ! 1)
   \<and> findSchoolNames_loop (institutions example_data) []
        (take (Suc 1) [''edu'', ''stanford'', ''cs''] @ [''other''])
      = findSchoolNames_loop (institutions example_data) [] [''edu'', ''stanford'', ''cs'']"
proof -
  have a1: "[] \<notin> set (take 1 [''uk'', ''ac'', ''ox''])"
    and a2: "[] \<notin> set (take 1 [''edu'', ''stanford'', ''cs''])"
    by simp_all
  have h1: "(1::nat) < length [''uk'', ''ac'', ''ox'']
      \<and> spec_subjects [''uk'', ''ac'', ''ox''] ! 1 \<in> {''ac.uk''}"
    by code_simp
  have h3: "(1::nat) < length [''edu'', ''stanford'', ''cs'']
      \<and> names_hit (institutions example_data) (spec_subjects [''edu'', ''stanford'', ''cs''] ! 1)"
    by code_simp
  note t1 = suffix_walk_first_hit [OF a1, where S = "{''ac.uk''}" and m = "institutions example_data"]
  note t2 = suffix_walk_first_hit [OF a2, where S = "{''ac.uk''}" and m = "institutions example_data"]
  from t1 h1 have c1: "checkSet {''ac.uk''} (take (Suc 1) [''uk'', ''ac'', ''ox''] @ [''other''])"
    by blast
  from t1 h1 have c2: "spec_subjects [''uk'', ''ac'', ''ox''] ! 1
      = join_with ''.'' (rev (take (Suc 1) [''uk'', ''ac'', ''ox'']))"
    by blast
  from t2 h3 have c3: "findSchoolNames_loop (institutions example_data) []
        (take (Suc 1) [''edu'', ''stanford'', ''cs''] @ [''other''])
      = findSchoolNames_loop (institutions example_data) [] [''edu'', ''stanford'', ''cs'']"
    by blast
  from a1 a2 h1 h3 c1 c2 c3 show ?thesis
    by blast
qed

text \<open>
  C9: when the map sends the accumulator to an empty list, \<open>findSchoolNames\<close> does not
  return there: the loop goes on with the next label. Its result is \<open>[]\<close> exactly when
  no accumulator value of the walk is sent to a non-empty list.
\<close>

theorem findSchoolNames_skips_empty_list:
  "(m (extend subj part) = Some []
      \<longrightarrow> findSchoolNames_loop m subj (part # parts)
          = findSchoolNames_loop m (extend subj part) parts)
   \<and> (findSchoolNames DATA e = [])
       = (\<not> list_ex (names_hit (institutions DATA)) (subjects [] (domainParts e)))"
  using findSchoolNames_Nil_iff [of DATA e] by (simp add: Let_def)

theorem findSchoolNames_skips_empty_list_witness:
  "institutions example_data_empty_entry (extend [] ''edu'') = Some []
   \<and> findSchoolNames_loop (institutions example_data_empty_entry) [] (''edu'' # [''stanford'', ''cs''])
      = findSchoolNames_loop (institutions example_data_empty_entry) (extend [] ''edu'')
          [''stanford'', ''cs'']
   \<and> findSchoolNames example_data_empty_entry ''alice@cs.stanford.edu'' = [''Stanford University'']"
proof -
  have h: "institutions example_data_empty_entry (extend [] ''edu'') = Some []"
    by code_simp
  have r: "findSchoolNames example_data_empty_entry ''alice@cs.stanford.edu''
      = [''Stanford University'']"
    by code_simp
  from h r
    findSchoolNames_skips_empty_list
      [where m = "institutions example_data_empty_entry" and subj = "[]" and part = "''edu''"
        and parts = "[''stanford'', ''cs'']"]
  show ?thesis
    by blast
qed

section \<open>The stoplist overrides\<close>

text \<open>
  C4: for every input and every data set, an input that is stoplisted is not academic,
  whatever the TLD set and the institution map say about it.
\<close>

theorem stoplisted_not_academic:
  "isStoplisted DATA e \<Longrightarrow> \<not> isAcademic DATA e"
  by (simp add: isAcademic_eq)

theorem stoplisted_not_academic_witness:
  "isStoplisted example_data ''dean@mail.america.edu''
   \<and> isUnderTLD example_data ''dean@mail.america.edu''
   \<and> \<not> isAcademic example_data ''dean@mail.america.edu''"
proof -
  have s: "isStoplisted example_data ''dean@mail.america.edu''"
    and t: "isUnderTLD example_data ''dean@mail.america.edu''"
    by code_simp+
  from s t stoplisted_not_academic [OF s] show ?thesis
    by simp
qed

section \<open>Loading without an artifact\<close>

text \<open>
  C6: when reading, decompressing or parsing the artifact fails, \<open>loadData\<close> returns the
  empty data set, and on it every query answers \<open>false\<close>, or \<open>[]\<close> for
  \<open>findSchoolNames\<close>, on every input.
\<close>

theorem degraded_load_answers_nothing:
  "loadData None = \<lparr>institutions = Map.empty, stoplist = {}, tlds = {}\<rparr>
   \<and> \<not> isAcademic (loadData None) s
   \<and> \<not> isUnderTLD (loadData None) s
   \<and> \<not> isStoplisted (loadData None) s
   \<and> findSchoolNames (loadData None) s = []"
  by (simp add: loadData_None isAcademic_eq isUnderTLD_def isStoplisted_def findSchoolNames_def
      checkSet_def checkSet_loop_empty findSchoolNames_loop_empty)

section \<open>Stoplist keys\<close>

text \<open>
  C5: for every canonical domain key (lowercase labels, none of them empty, joined by
  dots) that is in the stoplist set, \<open>isStoplisted\<close> is true of the key itself and of the
  key after \<open>user@\<close>: the normalizer leaves the key as it is and the walk ends on it.
\<close>

theorem stoplist_key_is_stoplisted:
  "canonical_key d \<Longrightarrow> d \<in> stoplist DATA
   \<Longrightarrow> isStoplisted DATA d \<and> isStoplisted DATA (''user@'' @ d)"
  using isStoplisted_canonical [of d DATA] by simp

theorem stoplist_key_is_stoplisted_witness:
  "canonical_key ''america.edu'' \<and> ''america.edu'' \<in> stoplist example_data
   \<and> isStoplisted example_data ''america.edu''
   \<and> isStoplisted example_data (''user@'' @ ''america.edu'')"
proof -
  have c: "canonical_key ''america.edu''"
    by code_simp
  have s: "''america.edu'' \<in> stoplist example_data"
    by (simp add: example_data_def)
  from c s stoplist_key_is_stoplisted [OF c s] show ?thesis
    by blast
qed

section \<open>White space around an address\<close>

text \<open>
  C10: \<open>isAcademic\<close> tests the shape of the input as it is given, and the other three
  queries trim it first. The address \<open>alice@cs.stanford.edu\<close> with a space on each side
  is not academic, although it is once trimmed, and \<open>isUnderTLD\<close> and
  \<open>findSchoolNames\<close> still find it; \<open>isStoplisted\<close> finds a padded stoplisted address.
  In general the three queries answer on an input what they answer on the trimmed input.
\<close>

theorem isAcademic_rejects_padded_address:
  "\<not> isAcademic example_data '' alice@cs.stanford.edu ''
   \<and> trim '' alice@cs.stanford.edu '' = ''alice@cs.stanford.edu''
   \<and> isAcademic example_data ''alice@cs.stanford.edu''
   \<and> isUnderTLD example_data '' alice@cs.stanford.edu ''
   \<and> findSchoolNames example_data '' alice@cs.stanford.edu '' = [''Stanford University'']
   \<and> \<not> isStoplisted example_data '' alice@cs.stanford.edu ''
   \<and> isStoplisted example_data '' dean@mail.america.edu ''
   \<and> (\<forall>DATA s. isUnderTLD DATA (trim s) = isUnderTLD DATA s
         \<and> isStoplisted DATA (trim s) = isStoplisted DATA s
         \<and> findSchoolNames DATA (trim s) = findSchoolNames DATA s)"
proof -
  have concrete:
    "\<not> isAcademic example_data '' alice@cs.stanford.edu ''
     \<and> trim '' alice@cs.stanford.edu '' = ''alice@cs.stanford.edu''
     \<and> isAcademic example_data ''alice@cs.stanford.edu''
     \<and> isUnderTLD example_data '' alice@cs.stanford.edu ''
     \<and> findSchoolNames example_data '' alice@cs.stanford.edu '' = [''Stanford University'']
     \<and> \<not> isStoplisted example_data '' alice@cs.stanford.edu ''
     \<and> isStoplisted example_data '' dean@mail.america.edu ''"
    by code_simp
  have general:
    "\<forall>DATA s. isUnderTLD DATA (trim s) = isUnderTLD DATA s
         \<and> isStoplisted DATA (trim s) = isStoplisted DATA s
         \<and> findSchoolNames DATA (trim s) = findSchoolNames DATA s"
    by (simp add: isUnderTLD_def isStoplisted_def findSchoolNames_def domainParts_trim)
  from concrete general show ?thesis
    by (intro conjI) simp_all
qed

section \<open>Properties of the build\<close>



text \<open>
  C8: after a build that succeeds, every value of the institution map is a non-empty
  list, and the value of a key is the parsed list of the first walked file that is an
  institution file, could be read, has that key and has at least one name: a file
  without names is never inserted, and a later file for a key that is present is
  skipped.
\<close>

theorem institution_values_non_empty:
  assumes "readSwot domainToASCII root = Inr r"
  shows
  "(\<forall>k v. institutions r k = Some v \<longrightarrow> v \<noteq> [])
   \<and> (\<exists>entries files. root = Directory entries \<and> walk [] entries = Inr files
         \<and> (\<forall>k. institutions r k = first_seen domainToASCII files k))"
proof -
  from readSwot_first_seen [OF assms] obtain entries files where
    h: "root = Directory entries" "walk [] entries = Inr files"
       "\<forall>k. institutions r k = first_seen domainToASCII files k"
    by blast
  then have "\<forall>k v. institutions r k = Some v \<longrightarrow> v \<noteq> []"
    using first_seen_non_empty [of domainToASCII files] by simp
  with h show ?thesis
    by blast
qed

theorem institution_values_non_empty_witness:
  "\<exists>r. readSwot (\<lambda>d. d) example_tree = Inr r
       \<and> institutions r ''stanford.edu'' = Some [''Stanford University'']
       \<and> institutions r ''empty.edu'' = None
       \<and> institutions r ''abused'' = None
       \<and> (\<forall>k v. institutions r k = Some v \<longrightarrow> v \<noteq> [])"
proof -
  have e: "case readSwot (\<lambda>d. d) example_tree of
             Inl err \<Rightarrow> False
           | Inr r \<Rightarrow> institutions r ''stanford.edu'' = Some [''Stanford University'']
                      \<and> institutions r ''empty.edu'' = None
                      \<and> institutions r ''abused'' = None"
    by code_simp
  then obtain r where r: "readSwot (\<lambda>d. d) example_tree = Inr r"
    by (cases "readSwot (\<lambda>d. d) example_tree") simp_all
  with e have v: "institutions r ''stanford.edu'' = Some [''Stanford University'']
      \<and> institutions r ''empty.edu'' = None \<and> institutions r ''abused'' = None"
    by simp
  from r v institution_values_non_empty [OF r] show ?thesis
    by blast
qed

end
